theory Spec2Isabelle
  imports Main "HOL-Library.Word"
begin

section \<open>The parts of \<open>std::string\<close> that stevensStringLib uses\<close>

text \<open>
  A \<open>std::string\<close> is a \<open>string\<close> (a list of bytes); an offset is a \<open>nat\<close>.
  A search that returns \<open>std::string::npos\<close> returns \<open>None\<close> here.
\<close>

text \<open>
  \<open>find_scan sub s k\<close> walks the suffix \<open>s\<close> of the text that starts at offset \<open>k\<close>
  and returns the first offset at which \<open>sub\<close> begins.
\<close>

fun find_scan :: "string \<Rightarrow> string \<Rightarrow> nat \<Rightarrow> nat option" where
  "find_scan sub [] k = (if sub = [] then Some k else None)"
| "find_scan sub (c # cs) k =
     (if take (length sub) (c # cs) = sub then Some k else find_scan sub cs (Suc k))"

text \<open>
  \<open>str.find(sub, pos)\<close>: the lowest offset \<open>xpos \<ge> pos\<close> with
  \<open>xpos + sub.size() \<le> str.size()\<close> at which \<open>sub\<close> occurs; \<open>npos\<close> when there is
  none, in particular when \<open>pos > str.size()\<close>.
\<close>

definition string_find :: "string \<Rightarrow> string \<Rightarrow> nat \<Rightarrow> nat option" where
  "string_find str sub pos =
     (if length str < pos then None else find_scan sub (drop pos str) pos)"

text \<open>\<open>occurs_at sub str i\<close>: \<open>sub\<close> occurs in \<open>str\<close> at offset \<open>i\<close>.\<close>

definition occurs_at :: "string \<Rightarrow> string \<Rightarrow> nat \<Rightarrow> bool" where
  "occurs_at sub str i = (i \<le> length str \<and> take (length sub) (drop i str) = sub)"

lemma find_scan_Some:
  "find_scan sub s k = Some q \<Longrightarrow>
     k \<le> q \<and> q \<le> k + length s \<and> take (length sub) (drop (q - k) s) = sub
     \<and> (\<forall>j. k \<le> j \<and> j < q \<longrightarrow> take (length sub) (drop (j - k) s) \<noteq> sub)"
proof (induction sub s k rule: find_scan.induct)
  case (1 sub k)
  then show ?case by (auto split: if_splits)
next
  case (2 sub c cs k)
  show ?case
  proof (cases "take (length sub) (c # cs) = sub")
    case True
    with "2.prems" show ?thesis by auto
  next
    case False
    with "2.prems" have rec: "find_scan sub cs (Suc k) = Some q" by simp
    from "2.IH" [OF False rec]
    have a: "Suc k \<le> q" and b: "q \<le> Suc k + length cs"
      and c: "take (length sub) (drop (q - Suc k) cs) = sub"
      and d: "\<forall>j. Suc k \<le> j \<and> j < q \<longrightarrow> take (length sub) (drop (j - Suc k) cs) \<noteq> sub"
      by auto
    from a have e: "q - k = Suc (q - Suc k)" by arith
    have "take (length sub) (drop (q - k) (c # cs)) = sub"
      using c e by simp
    moreover have "\<forall>j. k \<le> j \<and> j < q \<longrightarrow> take (length sub) (drop (j - k) (c # cs)) \<noteq> sub"
    proof (intro allI impI)
      fix j assume j: "k \<le> j \<and> j < q"
      show "take (length sub) (drop (j - k) (c # cs)) \<noteq> sub"
      proof (cases "j = k")
        case True
        then show ?thesis using False by simp
      next
        case False
        with j have "Suc k \<le> j" and "j - k = Suc (j - Suc k)" by arith+
        then show ?thesis using d j by simp
      qed
    qed
    ultimately show ?thesis using a b by auto
  qed
qed

lemma find_scan_None:
  "find_scan sub s k = None \<Longrightarrow> j \<le> length s \<Longrightarrow> take (length sub) (drop j s) \<noteq> sub"
proof (induction sub s k arbitrary: j rule: find_scan.induct)
  case (1 sub k)
  then show ?case by (auto split: if_splits)
next
  case (2 sub c cs k)
  from "2.prems" have ne: "take (length sub) (c # cs) \<noteq> sub"
    and rec: "find_scan sub cs (Suc k) = None"
    by (auto split: if_splits)
  show ?case
  proof (cases j)
    case 0
    then show ?thesis using ne by simp
  next
    case (Suc j')
    with "2.prems" have "j' \<le> length cs" by simp
    from "2.IH" [OF ne rec this] show ?thesis using Suc by simp
  qed
qed

lemma string_find_Some:
  assumes "string_find str sub pos = Some q"
  shows "pos \<le> q" and "q \<le> length str" and "occurs_at sub str q"
    and "\<And>j. pos \<le> j \<Longrightarrow> j < q \<Longrightarrow> \<not> occurs_at sub str j"
proof -
  from assms have le: "pos \<le> length str"
    and sc: "find_scan sub (drop pos str) pos = Some q"
    by (auto simp: string_find_def split: if_splits)
  note f = find_scan_Some [OF sc]
  from f show a: "pos \<le> q" by simp
  from f le show b: "q \<le> length str" by simp
  from f a have "take (length sub) (drop (pos + (q - pos)) str) = sub"
    by (simp add: add.commute)
  with a b show "occurs_at sub str q" by (simp add: occurs_at_def)
  fix j assume j: "pos \<le> j" "j < q"
  with f have "take (length sub) (drop (pos + (j - pos)) str) \<noteq> sub"
    by (simp add: add.commute)
  with j show "\<not> occurs_at sub str j" by (simp add: occurs_at_def)
qed

lemma string_find_None:
  assumes "string_find str sub pos = None" and "pos \<le> j"
  shows "\<not> occurs_at sub str j"
proof
  assume occ: "occurs_at sub str j"
  then have jl: "j \<le> length str" by (simp add: occurs_at_def)
  with assms have sc: "find_scan sub (drop pos str) pos = None"
    by (simp add: string_find_def split: if_splits)
  from jl assms(2) have "j - pos \<le> length (drop pos str)" by simp
  from find_scan_None [OF sc this] assms(2)
  have "take (length sub) (drop j str) \<noteq> sub" by (simp add: add.commute)
  with occ show False by (simp add: occurs_at_def)
qed

section \<open>findAll\<close>

text \<open>
  \<open>findAll\<close> pushes \<open>pos\<close> and searches again from \<open>pos + 1\<close> until the search
  returns \<open>npos\<close>.
\<close>

function findAll_loop :: "string \<Rightarrow> string \<Rightarrow> nat option \<Rightarrow> nat list \<Rightarrow> nat list" where
  "findAll_loop str substr None positions = positions"
| "findAll_loop str substr (Some pos) positions =
     findAll_loop str substr (string_find str substr (pos + 1)) (positions @ [pos])"
  by pat_completeness auto
termination
proof (relation "measure (\<lambda>(str, substr, pos, positions).
          case pos of None \<Rightarrow> 0 | Some p \<Rightarrow> Suc (Suc (length str) - p))")
  show "wf (measure (\<lambda>(str, substr, pos, positions).
          case pos of None \<Rightarrow> 0 | Some p \<Rightarrow> Suc (Suc (length str) - p)))"
    by simp
next
  fix str substr :: string and pos :: nat and positions :: "nat list"
  show "((str, substr, string_find str substr (pos + 1), positions @ [pos]),
         (str, substr, Some pos, positions))
        \<in> measure (\<lambda>(str, substr, pos, positions).
            case pos of None \<Rightarrow> 0 | Some p \<Rightarrow> Suc (Suc (length str) - p))"
  proof (cases "string_find str substr (pos + 1)")
    case None
    then show ?thesis by simp
  next
    case (Some q)
    from string_find_Some(1,2) [OF Some] have "pos < q" "q \<le> length str" by auto
    with Some show ?thesis by simp
  qed
qed

definition findAll :: "string \<Rightarrow> string \<Rightarrow> nat list" where
  "findAll str substr = findAll_loop str substr (string_find str substr 0) []"

lemma filter_upt_none:
  "(\<And>j. a \<le> j \<Longrightarrow> j < b \<Longrightarrow> \<not> P j) \<Longrightarrow> filter P [a..<b] = []"
  by (simp add: filter_empty_conv)

text \<open>The loop collects exactly the offsets at which the target occurs, in ascending order.\<close>

lemma findAll_loop_filter:
  "findAll_loop str sub (string_find str sub k) acc
     = acc @ filter (occurs_at sub str) [k..<Suc (length str)]"
proof (induction "Suc (length str) - k" arbitrary: k acc rule: less_induct)
  case less
  show ?case
  proof (cases "string_find str sub k")
    case None
    have "filter (occurs_at sub str) [k..<Suc (length str)] = []"
      by (rule filter_upt_none) (use string_find_None [OF None] in blast)
    with None show ?thesis by simp
  next
    case (Some q)
    note f = string_find_Some [OF Some]
    have split: "[k..<Suc (length str)] = [k..<q] @ q # [Suc q..<Suc (length str)]"
    proof -
      have "[k..<Suc (length str)] = [k..<q] @ [q..<Suc (length str)]"
        using f(1,2) upt_add_eq_append [of k q "Suc (length str) - q"] by simp
      moreover have "[q..<Suc (length str)] = q # [Suc q..<Suc (length str)]"
        using f(2) by (simp add: upt_conv_Cons del: upt_Suc)
      ultimately show ?thesis by simp
    qed
    have none: "filter (occurs_at sub str) [k..<q] = []"
      by (rule filter_upt_none) (use f(4) in blast)
    have dec: "Suc (length str) - Suc q < Suc (length str) - k"
      using f(1,2) by arith
    have "findAll_loop str sub (Some q) acc
            = findAll_loop str sub (string_find str sub (Suc q)) (acc @ [q])"
      by simp
    also have "\<dots> = (acc @ [q]) @ filter (occurs_at sub str) [Suc q..<Suc (length str)]"
      by (rule less [OF dec])
    finally have "findAll_loop str sub (Some q) acc
        = acc @ ([] @ q # filter (occurs_at sub str) [Suc q..<Suc (length str)])" by simp
    also have "[] @ q # filter (occurs_at sub str) [Suc q..<Suc (length str)]
        = filter (occurs_at sub str) [k..<Suc (length str)]"
      unfolding split filter_append none using f(3) by simp
    finally show ?thesis
      unfolding Some .
  qed
qed

lemma findAll_filter:
  "findAll str sub = filter (occurs_at sub str) [0..<Suc (length str)]"
  using findAll_loop_filter [of str sub 0 "[]"] by (simp add: findAll_def)

text \<open>
  C1 (as the code has it). With the empty target, \<open>str.find("", pos)\<close> succeeds at every
  \<open>pos \<le> str.size()\<close>, the final position included, so \<open>findAll(T, "")\<close> returns the
  offsets \<open>0, 1, \<dots>, T.length()\<close>: \<open>T.length() + 1\<close> positions for every text, and one
  position (offset 0) for the empty text.
\<close>

theorem findAll_empty_target:
  "findAll T [] = [0..<length T + 1] \<and> length (findAll T []) = length T + 1"
  by (simp add: findAll_filter occurs_at_def cong: filter_cong)

text \<open>
  C1 (as stated) fails: a two-character text gives three positions, not two, and the
  empty text gives one position, not none.
\<close>

theorem findAll_empty_target_counterexample:
  "length (findAll ''ab'' []) \<noteq> length ''ab'' \<and> length (findAll [] []) \<noteq> 0"
  by (simp add: findAll_def string_find_def)

section \<open>Reading lines from a string stream\<close>

text \<open>
  \<open>std::istringstream\<close> as the unread characters and the two state bits that
  \<open>std::getline\<close> reads and sets.
\<close>

abbreviation newline :: char where "newline \<equiv> CHR 0x0A"

record istringstream =
  buffer :: string
  eofbit :: bool
  failbit :: bool

definition istringstream_of :: "string \<Rightarrow> istringstream" where
  "istringstream_of str = \<lparr>buffer = str, eofbit = False, failbit = False\<rparr>"

text \<open>
  \<open>std::getline(is, str, delim)\<close>. On a stream that is not good it sets \<open>failbit\<close> and
  leaves \<open>str\<close> alone. Otherwise it moves characters into \<open>str\<close> up to the next
  \<open>delim\<close>, which it extracts and discards; when the characters run out first it sets
  \<open>eofbit\<close>, and also \<open>failbit\<close> when it has extracted nothing at all. The returned
  stream converts to \<open>true\<close> exactly when \<open>failbit\<close> is clear.
\<close>

definition getline :: "istringstream \<Rightarrow> string \<Rightarrow> char \<Rightarrow> istringstream \<times> string" where
  "getline is str delim =
     (if eofbit is \<or> failbit is then (is\<lparr>failbit := True\<rparr>, str)
      else (let line = takeWhile (\<lambda>c. c \<noteq> delim) (buffer is)
            in case dropWhile (\<lambda>c. c \<noteq> delim) (buffer is) of
                 d # rest \<Rightarrow> (is\<lparr>buffer := rest\<rparr>, line)
               | [] \<Rightarrow> (is\<lparr>buffer := [], eofbit := True, failbit := (line = [])\<rparr>, line)))"

lemma getline_shrinks:
  "getline is str delim = (is', line) \<Longrightarrow> \<not> failbit is' \<Longrightarrow> length (buffer is') < length (buffer is)"
  apply (auto simp: getline_def Let_def split: if_splits list.splits)
   apply (metis length_dropWhile_le length_Cons less_Suc_eq_le not_less_eq)
  done

section \<open>Faults\<close>

text \<open>
  What the code can do instead of returning: read the last character of an empty string
  (\<open>back()\<close> on an empty \<open>std::string\<close>, undefined behaviour), overflow an \<open>int\<close>
  counter (undefined behaviour), or throw \<open>std::out_of_range\<close>.
\<close>

datatype fault = back_of_empty_string | signed_overflow | out_of_range

section \<open>countLines\<close>

text \<open>
  \<open>while (std::getline(ss, line)) ++number_of_lines;\<close> The counter is a 32-bit
  \<open>int\<close>: incrementing it beyond \<open>2^31 - 1\<close> overflows.
\<close>

function countLines_loop :: "istringstream \<Rightarrow> string \<Rightarrow> int \<Rightarrow> fault + int" where
  "countLines_loop ss line number_of_lines =
     (case getline ss line newline of
        (ss', line') \<Rightarrow>
          if failbit ss' then Inr number_of_lines
          else if 2 ^ 31 \<le> number_of_lines + 1 then Inl signed_overflow
          else countLines_loop ss' line' (number_of_lines + 1))"
  by pat_completeness auto
termination
  by (relation "measure (\<lambda>(ss, line, n). length (buffer ss))")
     (auto dest: getline_shrinks [OF sym])

definition countLines :: "string \<Rightarrow> fault + int" where
  "countLines str = countLines_loop (istringstream_of str) [] 0"


declare countLines_loop.simps [simp del]

text \<open>
  \<open>pieces d cur s\<close> lists what successive \<open>getline\<close> calls with delimiter \<open>d\<close>
  return on the unread characters \<open>s\<close>, \<open>cur\<close> being the part of the current line
  already seen: a last line that is empty and has no delimiter after it is not returned.
\<close>

fun pieces :: "char \<Rightarrow> string \<Rightarrow> string \<Rightarrow> string list" where
  "pieces d cur [] = (if cur = [] then [] else [cur])"
| "pieces d cur (c # cs) = (if c = d then cur # pieces d [] cs else pieces d (cur @ [c]) cs)"

lemma pieces_no_delim:
  "d \<notin> set l \<Longrightarrow> pieces d cur l = (if cur @ l = [] then [] else [cur @ l])"
  by (induction l arbitrary: cur) auto

lemma pieces_delim:
  "d \<notin> set l \<Longrightarrow> pieces d cur (l @ d # rest) = (cur @ l) # pieces d [] rest"
  by (induction l arbitrary: cur) auto

lemma getline_cases:
  assumes "\<not> eofbit is" "\<not> failbit is"
  obtains (delim) l rest where "buffer is = l @ delim # rest" "delim \<notin> set l"
      "getline is str delim = (is\<lparr>buffer := rest\<rparr>, l)"
  | (eof) "delim \<notin> set (buffer is)"
      "getline is str delim
         = (is\<lparr>buffer := [], eofbit := True, failbit := (buffer is = [])\<rparr>, buffer is)"
proof (cases "dropWhile (\<lambda>c. c \<noteq> delim) (buffer is)")
  case Nil
  then have n: "delim \<notin> set (buffer is)" by (auto simp: dropWhile_eq_Nil_conv)
  then have tw: "takeWhile (\<lambda>c. c \<noteq> delim) (buffer is) = buffer is"
    by (auto simp: takeWhile_eq_all_conv)
  from assms have "getline is str delim
         = (is\<lparr>buffer := [], eofbit := True, failbit := (buffer is = [])\<rparr>, buffer is)"
    by (simp add: getline_def Nil tw Let_def)
  with n show ?thesis by (rule eof)
next
  case (Cons x rest)
  let ?l = "takeWhile (\<lambda>c. c \<noteq> delim) (buffer is)"
  from Cons have x: "x = delim"
    by (metis (mono_tags, lifting) hd_dropWhile list.distinct(1) list.sel(1))
  have "buffer is = ?l @ dropWhile (\<lambda>c. c \<noteq> delim) (buffer is)" by simp
  with Cons x have a: "buffer is = ?l @ delim # rest" by simp
  have b: "delim \<notin> set ?l" by (auto dest: set_takeWhileD)
  from assms have c: "getline is str delim = (is\<lparr>buffer := rest\<rparr>, ?l)"
    by (simp add: getline_def Cons Let_def)
  from a b c show ?thesis by (rule delim)
qed

lemma countLines_loop_pieces:
  assumes "n < 2 ^ 31"
  shows "countLines_loop ss line n
     = (if eofbit ss \<or> failbit ss then Inr n
        else if n + int (length (pieces newline [] (buffer ss))) < 2 ^ 31
        then Inr (n + int (length (pieces newline [] (buffer ss))))
        else Inl signed_overflow)"
  using assms
proof (induction ss line n rule: countLines_loop.induct)
  case (1 ss line n)
  show ?case
  proof (cases "eofbit ss \<or> failbit ss")
    case True
    then show ?thesis by (auto simp: countLines_loop.simps [of ss] getline_def)
  next
    case False
    then have good: "\<not> eofbit ss" "\<not> failbit ss" by auto
    from good show ?thesis
    proof (cases rule: getline_cases [where delim = newline and str = line])
      case (delim l rest)
      have p: "pieces newline [] (buffer ss) = l # pieces newline [] rest"
        using delim by (simp add: pieces_delim)
      show ?thesis
      proof (cases "(2::int) ^ 31 \<le> n + 1")
        case True
        with delim good p show ?thesis
          by (simp add: countLines_loop.simps [of ss])
      next
        case False
        then have n1: "n + 1 < 2 ^ 31" by simp
        have f: "\<not> failbit (ss\<lparr>buffer := rest\<rparr>)" using good by simp
        from "1.IH" [OF delim(3) [symmetric] f False n1] good
        have "countLines_loop (ss\<lparr>buffer := rest\<rparr>) l (n + 1)
                = (if n + 1 + int (length (pieces newline [] rest)) < 2 ^ 31
                   then Inr (n + 1 + int (length (pieces newline [] rest)))
                   else Inl signed_overflow)" by simp
        with delim good p False show ?thesis
          by (simp add: countLines_loop.simps [of ss] add.assoc)
      qed
    next
      case eof
      show ?thesis
      proof (cases "buffer ss = []")
        case True
        with eof good "1.prems" show ?thesis by (simp add: countLines_loop.simps [of ss])
      next
        case ne: False
        have p: "pieces newline [] (buffer ss) = [buffer ss]"
          using eof ne by (simp add: pieces_no_delim)
        show ?thesis
        proof (cases "(2::int) ^ 31 \<le> n + 1")
          case True
          with eof good ne p show ?thesis
            by (simp add: countLines_loop.simps [of ss])
        next
          case False
          then have n1: "n + 1 < 2 ^ 31" by simp
          have f: "\<not> failbit (ss\<lparr>buffer := [], eofbit := True, failbit := (buffer ss = [])\<rparr>)"
            using ne by simp
          from "1.IH" [OF eof(2) [symmetric] f False n1]
          have "countLines_loop (ss\<lparr>buffer := [], eofbit := True, failbit := (buffer ss = [])\<rparr>)
                   (buffer ss) (n + 1) = Inr (n + 1)" by simp
          with eof good ne p False show ?thesis
            by (simp add: countLines_loop.simps [of ss])
        qed
      qed
    qed
  qed
qed

lemma length_pieces:
  "d \<notin> set cur \<Longrightarrow> length (pieces d cur T)
     = count_list T d + (if cur @ T \<noteq> [] \<and> last (cur @ T) \<noteq> d then 1 else 0)"
  by (induction T arbitrary: cur) auto

text \<open>
  \<open>countLines\<close> counts the lines that \<open>std::getline\<close> reads, one for every newline
  character and one more for a non-empty text that does not end with a newline, as long
  as the \<open>int\<close> counter can hold the count.
\<close>

lemma countLines_result:
  "countLines T
     = (if count_list T newline + (if T \<noteq> [] \<and> last T \<noteq> newline then 1 else 0) < 2 ^ 31
        then Inr (int (count_list T newline)
                  + (if T \<noteq> [] \<and> last T \<noteq> newline then 1 else 0))
        else Inl signed_overflow)"
proof -
  let ?k = "count_list T newline + (if T \<noteq> [] \<and> last T \<noteq> newline then 1 else 0)"
  have k: "length (pieces newline [] T) = ?k" by (simp add: length_pieces)
  have lt: "int ?k < 2 ^ 31 \<longleftrightarrow> ?k < 2 ^ 31"
    by (metis of_nat_less_iff of_nat_numeral of_nat_power)
  have "countLines T = (if int ?k < 2 ^ 31 then Inr (int ?k) else Inl signed_overflow)"
    using countLines_loop_pieces [of 0 "istringstream_of T" "[]"]
    unfolding countLines_def k [symmetric] by (simp add: istringstream_of_def)
  then show ?thesis unfolding lt by simp
qed

text \<open>
  C9 (as the code has it). On a text of fewer than \<open>2^31\<close> lines \<open>countLines\<close>
  returns the number of lines that \<open>std::getline\<close> reads: the number of newline
  characters, and one more for a non-empty text that does not end with a newline.
\<close>

theorem countLines_counts_lines:
  assumes "count_list T newline + (if T \<noteq> [] \<and> last T \<noteq> newline then 1 else 0) < 2 ^ 31"
  shows "countLines T = Inr (int (count_list T newline)
                             + (if T \<noteq> [] \<and> last T \<noteq> newline then 1 else 0))"
  using assms by (simp only: countLines_result if_True)

theorem countLines_counts_lines_witness:
  "count_list ''ab\<newline>cd\<newline>e'' newline
     + (if ''ab\<newline>cd\<newline>e'' \<noteq> [] \<and> last ''ab\<newline>cd\<newline>e'' \<noteq> newline then 1 else 0) < 2 ^ 31
   \<and> countLines ''ab\<newline>cd\<newline>e'' = Inr 3"
proof -
  have h: "count_list ''ab\<newline>cd\<newline>e'' newline
     + (if ''ab\<newline>cd\<newline>e'' \<noteq> [] \<and> last ''ab\<newline>cd\<newline>e'' \<noteq> newline then 1 else 0) < 2 ^ 31"
    by simp
  from countLines_counts_lines [OF h] h show ?thesis by simp
qed

text \<open>
  C9 (as stated) fails: the text \<open>a\<close> has no newline character and one line.
\<close>

theorem countLines_counterexample:
  "countLines ''a'' = Inr 1 \<and> count_list ''a'' newline = 0"
  by (simp add: countLines_def countLines_loop.simps getline_def istringstream_of_def)

section \<open>separate\<close>

text \<open>
  \<open>size_t\<close> is 64 bits wide and \<open>int\<close> 32. \<open>size_t_of\<close> is a search result as the
  \<open>size_t\<close> the library returns, \<open>int_of_size_t\<close> its conversion to \<open>int\<close> (the low
  32 bits, two's complement), \<open>size_t_of_int\<close> the conversion of an \<open>int\<close> operand
  when it is compared with a \<open>size_t\<close>.
\<close>

definition npos :: nat where
  "npos = 2 ^ 64 - 1"

definition size_t_of :: "nat option \<Rightarrow> nat" where
  "size_t_of r = (case r of None \<Rightarrow> npos | Some p \<Rightarrow> p)"

definition int_of_size_t :: "nat \<Rightarrow> int" where
  "int_of_size_t n = sint (word_of_nat n :: 32 word)"

definition size_t_of_int :: "int \<Rightarrow> nat" where
  "size_t_of_int i = nat (i mod 2 ^ 64)"

text \<open>
  \<open>contains\<close> stores the result of \<open>find\<close> in an \<open>int\<close> and compares that with
  \<open>str.length()\<close> and \<open>npos\<close>. Its last branch also prints a notice on
  \<open>std::cout\<close>, which is not modelled.
\<close>

definition contains :: "string \<Rightarrow> string \<Rightarrow> bool" where
  "contains str substring =
     (let result = int_of_size_t (size_t_of (string_find str substring 0))
      in if 0 \<le> result \<and> size_t_of_int result \<le> length str then True
         else if size_t_of_int result = npos then False
         else False)"

text \<open>\<open>s.erase(pos, n)\<close> throws when \<open>pos > s.size()\<close>.\<close>

definition string_erase :: "string \<Rightarrow> nat \<Rightarrow> nat \<Rightarrow> fault + string" where
  "string_erase s pos n =
     (if length s < pos then Inl out_of_range else Inr (take pos s @ drop (pos + n) s))"

text \<open>\<open>s.back()\<close> has no defined result on the empty string.\<close>

definition string_back :: "string \<Rightarrow> fault + char" where
  "string_back s = (if s = [] then Inl back_of_empty_string else Inr (last s))"

text \<open>
  The single-character branch:
  \<open>for (std::string each; std::getline(split, each, separator[0]);
  separatedStrings.push_back(each));\<close>
\<close>

function separate_getline_loop ::
  "istringstream \<Rightarrow> string \<Rightarrow> char \<Rightarrow> string list \<Rightarrow> string list" where
  "separate_getline_loop split each delim separatedStrings =
     (case getline split each delim of
        (split', each') \<Rightarrow>
          if failbit split' then separatedStrings
          else separate_getline_loop split' each' delim (separatedStrings @ [each']))"
  by pat_completeness auto
termination
  by (relation "measure (\<lambda>(split, each, delim, acc). length (buffer split))")
     (auto dest: getline_shrinks [OF sym])

declare separate_getline_loop.simps [simp del]

text \<open>
  The general branch walks the characters of \<open>str\<close>; the first argument is what is
  left to read. After each character it asks whether \<open>word\<close> contains the separator,
  and if so erases the separator from \<open>word\<close>, pushes \<open>word\<close> and clears it.
\<close>

fun separate_scan ::
  "string \<Rightarrow> string \<Rightarrow> string \<Rightarrow> string list \<Rightarrow> fault + (string \<times> string list)" where
  "separate_scan [] separator word separatedStrings = Inr (word, separatedStrings)"
| "separate_scan (c # cs) separator word separatedStrings =
     (let word1 = word @ [c]
      in if contains word1 separator then
           (case string_erase word1 (size_t_of (string_find word1 separator 0))
                   (length separator) of
              Inl e \<Rightarrow> Inl e
            | Inr word2 \<Rightarrow> separate_scan cs separator [] (separatedStrings @ [word2]))
         else separate_scan cs separator word1 separatedStrings)"

text \<open>
  After the \<open>getline\<close> loop the code looks at the last character of the last segment,
  guarded only by \<open>!separatedStrings.empty()\<close>.
\<close>

definition separate_single :: "string \<Rightarrow> char \<Rightarrow> fault + string list" where
  "separate_single str sep0 =
     (let separatedStrings = separate_getline_loop (istringstream_of str) [] sep0 []
      in if separatedStrings \<noteq> [] then
           (case string_back (last separatedStrings) of
              Inl e \<Rightarrow> Inl e
            | Inr ch \<Rightarrow>
                if ch = sep0
                then Inr (butlast separatedStrings @ [butlast (last separatedStrings)])
                else Inr separatedStrings)
         else Inr separatedStrings)"

text \<open>
  The counter of the general branch is an \<open>int\<close>: on a text of \<open>2^31\<close> characters
  or more, \<open>i++\<close> overflows. After the loop the remaining \<open>word\<close> is pushed.
\<close>

definition separate_general :: "string \<Rightarrow> string \<Rightarrow> fault + string list" where
  "separate_general str separator =
     (if 2 ^ 31 \<le> length str then Inl signed_overflow
      else (case separate_scan str separator [] [] of
              Inl e \<Rightarrow> Inl e
            | Inr (word, separatedStrings) \<Rightarrow> Inr (separatedStrings @ [word])))"

definition separate :: "string \<Rightarrow> string \<Rightarrow> bool \<Rightarrow> fault + string list" where
  "separate str separator omitEmptyStrings =
     (case (if length separator = 1 then separate_single str (separator ! 0)
            else separate_general str separator) of
        Inl e \<Rightarrow> Inl e
      | Inr separatedStrings \<Rightarrow>
          Inr (if omitEmptyStrings then filter (\<lambda>s. s \<noteq> []) separatedStrings
               else separatedStrings))"

lemma separate_getline_loop_pieces:
  "separate_getline_loop split each d acc
     = acc @ (if eofbit split \<or> failbit split then [] else pieces d [] (buffer split))"
proof (induction split each d acc rule: separate_getline_loop.induct)
  case (1 split each d acc)
  show ?case
  proof (cases "eofbit split \<or> failbit split")
    case True
    then show ?thesis by (auto simp: separate_getline_loop.simps [of split] getline_def)
  next
    case False
    then have good: "\<not> eofbit split" "\<not> failbit split" by auto
    from good show ?thesis
    proof (cases rule: getline_cases [where delim = d and str = each])
      case (delim l rest)
      from "1.IH" [OF delim(3) [symmetric]] good
      have "separate_getline_loop (split\<lparr>buffer := rest\<rparr>) l d (acc @ [l])
              = (acc @ [l]) @ pieces d [] rest" by simp
      with delim good show ?thesis
        by (simp add: separate_getline_loop.simps [of split] pieces_delim)
    next
      case eof
      show ?thesis
      proof (cases "buffer split = []")
        case True
        with eof good show ?thesis by (simp add: separate_getline_loop.simps [of split])
      next
        case False
        from "1.IH" [OF eof(2) [symmetric]] False
        have "separate_getline_loop
                (split\<lparr>buffer := [], eofbit := True, failbit := (buffer split = [])\<rparr>)
                (buffer split) d (acc @ [buffer split]) = acc @ [buffer split]" by simp
        with eof good False show ?thesis
          by (simp add: separate_getline_loop.simps [of split] pieces_no_delim)
      qed
    qed
  qed
qed

lemma pieces_Nil_iff: "pieces d cur T = [] \<longleftrightarrow> cur = [] \<and> T = []"
  by (induction T arbitrary: cur) auto

lemma last_pieces_empty:
  "pieces d cur T \<noteq> [] \<and> last (pieces d cur T) = []
     \<longleftrightarrow> T \<noteq> [] \<and> last T = d \<and> (if length T = 1 then cur = [] else last (butlast T) = d)"
proof (induction T arbitrary: cur)
  case Nil
  then show ?case by simp
next
  case (Cons c cs)
  show ?case
  proof (cases "cs = []")
    case True
    then show ?thesis by auto
  next
    case False
    then obtain x xs where cs: "cs = x # xs" by (cases cs) auto
    show ?thesis
    proof (cases "c = d")
      case True
      with Cons [of "[]"] False show ?thesis
        by (auto simp: pieces_Nil_iff cs)
    next
      case False
      with Cons [of "cur @ [c]"] show ?thesis
        by (auto simp: cs)
    qed
  qed
qed

lemma ends_doubled:
  "(T \<noteq> [] \<and> last T = d \<and> (if length T = 1 then True else last (butlast T) = d))
     \<longleftrightarrow> (T = [d] \<or> (\<exists>U. T = U @ [d, d]))"
proof
  assume a: "T \<noteq> [] \<and> last T = d \<and> (if length T = 1 then True else last (butlast T) = d)"
  then have T: "T = butlast T @ [d]" by (metis append_butlast_last_id)
  show "T = [d] \<or> (\<exists>U. T = U @ [d, d])"
  proof (cases "butlast T = []")
    case True
    with T show ?thesis by simp
  next
    case False
    with T have "length T \<noteq> 1" by (metis append_Nil butlast_snoc length_0_conv length_butlast diff_self_eq_0)
    with a have "last (butlast T) = d" by simp
    with False have "butlast T = butlast (butlast T) @ [d]" by (metis append_butlast_last_id)
    with T have "T = butlast (butlast T) @ [d, d]" by (metis append.assoc append_Cons append_Nil)
    then show ?thesis by blast
  qed
next
  assume "T = [d] \<or> (\<exists>U. T = U @ [d, d])"
  then show "T \<noteq> [] \<and> last T = d \<and> (if length T = 1 then True else last (butlast T) = d)"
    by (auto simp: butlast_append)
qed

text \<open>
  C10. With a single-character separator \<open>c\<close>, \<open>separate\<close> calls \<open>back()\<close> on an
  empty final segment exactly when the text is \<open>c\<close> alone or ends with \<open>cc\<close>, which are
  the texts whose \<open>getline\<close> segmentation ends with an empty segment: the guard only
  checks that there is a segment. Both \<open>separate(",", ",")\<close> and
  \<open>separate(",,", ",")\<close> reach it.
\<close>

theorem separate_back_of_empty_segment:
  "separate T [c] omitEmptyStrings = Inl back_of_empty_string
     \<longleftrightarrow> (T = [c] \<or> (\<exists>U. T = U @ [c, c]))"
proof -
  let ?segs = "pieces c [] T"
  have segs: "separate_getline_loop (istringstream_of T) [] c [] = ?segs"
    by (simp add: separate_getline_loop_pieces istringstream_of_def)
  have "separate T [c] omitEmptyStrings = Inl back_of_empty_string
          \<longleftrightarrow> ?segs \<noteq> [] \<and> last ?segs = []"
    by (auto simp: separate_def separate_single_def segs string_back_def Let_def
             split: sum.splits if_splits)
  also have "\<dots> \<longleftrightarrow> T \<noteq> [] \<and> last T = c
                   \<and> (if length T = 1 then True else last (butlast T) = c)"
    using last_pieces_empty [of c "[]" T] by simp
  also have "\<dots> \<longleftrightarrow> (T = [c] \<or> (\<exists>U. T = U @ [c, c]))"
    by (rule ends_doubled)
  finally show ?thesis .
qed

theorem separate_back_of_empty_segment_witness:
  "separate '','' '','' True = Inl back_of_empty_string
   \<and> separate '',,'' '','' True = Inl back_of_empty_string"
proof -
  have "\<exists>U. '',,'' = U @ [CHR '','', CHR '','']" by (rule exI [of _ "[]"]) simp
  then show ?thesis
    using separate_back_of_empty_segment [of "'',''" "CHR '',''" True]
      separate_back_of_empty_segment [of "'',,''" "CHR '',''" True]
    by simp
qed

subsection \<open>The general branch on texts shorter than \<open>2^31\<close> characters\<close>

text \<open>An offset below \<open>2^31\<close> survives the conversion to \<open>int\<close>; \<open>npos\<close> becomes \<open>-1\<close>.\<close>

lemma int_of_size_t_small: "n < 2 ^ 31 \<Longrightarrow> int_of_size_t n = int n"
proof -
  assume "n < 2 ^ 31"
  then have "int n < 2 ^ 31" by (metis of_nat_less_iff of_nat_numeral of_nat_power)
  then have "signed_take_bit 31 (int n) = int n"
    by (intro signed_take_bit_int_eq_self) simp_all
  then show ?thesis
    by (simp add: int_of_size_t_def signed_of_nat)
qed

lemma int_of_size_t_npos: "int_of_size_t npos = - 1"
  by (simp add: int_of_size_t_def npos_def)

lemma contains_iff:
  assumes "length str < 2 ^ 31"
  shows "contains str sub \<longleftrightarrow> string_find str sub 0 \<noteq> None"
proof (cases "string_find str sub 0")
  case None
  then show ?thesis
    by (simp add: contains_def size_t_of_def int_of_size_t_npos)
next
  case (Some p)
  from string_find_Some(2) [OF Some] assms have "p < 2 ^ 31" by simp
  then have "int_of_size_t p = int p" by (rule int_of_size_t_small)
  moreover have "size_t_of_int (int p) = p"
    using \<open>p < 2 ^ 31\<close> by (simp add: size_t_of_int_def)
  ultimately show ?thesis
    using Some string_find_Some(2) [OF Some]
    by (simp add: contains_def size_t_of_def)
qed


text \<open>\<open>ends_with sub s\<close>: \<open>sub\<close> is a suffix of \<open>s\<close>.\<close>

definition ends_with :: "string \<Rightarrow> string \<Rightarrow> bool" where
  "ends_with sub s = (length sub \<le> length s \<and> drop (length s - length sub) s = sub)"

text \<open>
  \<open>join D segs\<close> concatenates the segments with the delimiter \<open>D\<close> reinserted between
  consecutive segments (the reconstruction the specification speaks of).
\<close>

fun join :: "string \<Rightarrow> string list \<Rightarrow> string" where
  "join D [] = []"
| "join D [s] = s"
| "join D (s # t # ss) = s @ D @ join D (t # ss)"

text \<open>
  \<open>apart n ps\<close>: any two distinct offsets of \<open>ps\<close> are at least \<open>n\<close> apart, so
  occurrences of an \<open>n\<close>-character target at these offsets do not overlap.
\<close>

definition apart :: "nat \<Rightarrow> nat list \<Rightarrow> bool" where
  "apart n ps = (\<forall>i \<in> set ps. \<forall>j \<in> set ps. i < j \<longrightarrow> i + n \<le> j)"

lemma join_snoc: "join D (acc @ [w]) = concat (map (\<lambda>s. s @ D) acc) @ w"
  by (induction D acc rule: join.induct) auto

lemma occurs_at_length: "occurs_at D A i \<Longrightarrow> i + length D \<le> length A"
proof -
  assume a: "occurs_at D A i"
  then have "length (take (length D) (drop i A)) = length D" by (simp add: occurs_at_def)
  then have "length D \<le> length A - i" by simp
  moreover from a have "i \<le> length A" by (simp add: occurs_at_def)
  ultimately show ?thesis by arith
qed

lemma occurs_at_append_left:
  assumes "occurs_at D A i" shows "occurs_at D (A @ B) i"
proof -
  from occurs_at_length [OF assms] have "length D \<le> length A - i" "i \<le> length A" by auto
  with assms show ?thesis by (simp add: occurs_at_def)
qed

lemma occurs_at_append_right:
  assumes "occurs_at D B i" shows "occurs_at D (A @ B) (length A + i)"
  using assms by (simp add: occurs_at_def)

lemma ends_with_occurs: "ends_with D s \<Longrightarrow> occurs_at D s (length s - length D)"
  by (simp add: ends_with_def occurs_at_def)

lemma ends_with_append:
  assumes "ends_with D B" shows "ends_with D (A @ B)"
proof -
  from assms have le: "length D \<le> length B" and d: "drop (length B - length D) B = D"
    by (simp_all add: ends_with_def)
  from le have "length (A @ B) - length D = length A + (length B - length D)" by simp
  then have "drop (length (A @ B) - length D) (A @ B) = drop (length B - length D) B"
    by (simp only: drop_append) simp
  with le d show ?thesis by (simp add: ends_with_def)
qed

lemma ends_with_appendD:
  assumes "ends_with D (A @ B)" "length D \<le> length B" shows "ends_with D B"
proof -
  from assms(2) have "length (A @ B) - length D = length A + (length B - length D)" by simp
  then have "drop (length (A @ B) - length D) (A @ B) = drop (length B - length D) B"
    by (simp only: drop_append) simp
  with assms show ?thesis by (simp add: ends_with_def)
qed

text \<open>
  Appending one character to a text adds at most one occurrence of a non-empty target:
  the one that ends at the new character.
\<close>

lemma occurs_at_snoc:
  assumes "D \<noteq> []"
  shows "occurs_at D (P @ [c]) i
           \<longleftrightarrow> occurs_at D P i \<or> (ends_with D (P @ [c]) \<and> i = Suc (length P) - length D)"
proof
  assume occ: "occurs_at D (P @ [c]) i"
  from occurs_at_length [OF occ] have len: "i + length D \<le> Suc (length P)" by simp
  show "occurs_at D P i \<or> (ends_with D (P @ [c]) \<and> i = Suc (length P) - length D)"
  proof (cases "i + length D \<le> length P")
    case True
    then have "length D \<le> length P - i" "i \<le> length P" by auto
    with occ have "occurs_at D P i" by (simp add: occurs_at_def)
    then show ?thesis ..
  next
    case False
    with len have i: "i = Suc (length P) - length D" and le: "length D \<le> Suc (length P)"
      by auto
    from i le have "length (drop i (P @ [c])) = length D" by simp
    then have "take (length D) (drop i (P @ [c])) = drop i (P @ [c])" by simp
    with occ have "drop i (P @ [c]) = D" by (simp add: occurs_at_def)
    with i le have "ends_with D (P @ [c])" by (simp add: ends_with_def)
    with i show ?thesis by simp
  qed
next
  assume "occurs_at D P i \<or> (ends_with D (P @ [c]) \<and> i = Suc (length P) - length D)"
  then show "occurs_at D (P @ [c]) i"
  proof
    assume "occurs_at D P i"
    then show ?thesis by (rule occurs_at_append_left)
  next
    assume "ends_with D (P @ [c]) \<and> i = Suc (length P) - length D"
    then show ?thesis using ends_with_occurs [of D "P @ [c]"] by simp
  qed
qed

lemma not_occurs_at_tail:
  assumes "D \<noteq> []" "length D \<le> Suc (length P)"
  shows "\<not> occurs_at D P (Suc (length P) - length D)"
proof
  assume "occurs_at D P (Suc (length P) - length D)"
  from occurs_at_length [OF this] assms show False by (cases D) auto
qed

lemma set_findAll: "set (findAll T D) = {i. occurs_at D T i}"
  by (auto simp del: upt_Suc simp: findAll_filter occurs_at_def)

lemma distinct_findAll: "distinct (findAll T D)"
  by (simp del: upt_Suc add: findAll_filter)

lemma length_findAll: "length (findAll T D) = card {i. occurs_at D T i}"
  using distinct_card [OF distinct_findAll, of T D] by (simp add: set_findAll)

lemma finite_occurs: "finite {i. occurs_at D T i}"
  using finite_set [of "findAll T D"] by (simp only: set_findAll)

lemma length_findAll_snoc:
  assumes "D \<noteq> []"
  shows "length (findAll (P @ [c]) D)
           = length (findAll P D) + (if ends_with D (P @ [c]) then 1 else 0)"
proof (cases "ends_with D (P @ [c])")
  case True
  then have le: "length D \<le> Suc (length P)" by (simp add: ends_with_def)
  have "{i. occurs_at D (P @ [c]) i}
          = insert (Suc (length P) - length D) {i. occurs_at D P i}"
    using True by (auto simp: occurs_at_snoc [OF assms])
  moreover have "Suc (length P) - length D \<notin> {i. occurs_at D P i}"
    using not_occurs_at_tail [OF assms le] by simp
  ultimately show ?thesis
    using True finite_occurs [of D P] by (simp add: length_findAll)
next
  case False
  then have "{i. occurs_at D (P @ [c]) i} = {i. occurs_at D P i}"
    by (auto simp: occurs_at_snoc [OF assms])
  with False show ?thesis by (simp add: length_findAll)
qed

lemma string_find_None_iff:
  "string_find w D 0 = None \<longleftrightarrow> (\<forall>i. \<not> occurs_at D w i)"
proof
  assume "string_find w D 0 = None"
  then show "\<forall>i. \<not> occurs_at D w i" using string_find_None by blast
next
  assume a: "\<forall>i. \<not> occurs_at D w i"
  show "string_find w D 0 = None"
  proof (cases "string_find w D 0")
    case None then show ?thesis .
  next
    case (Some p)
    from string_find_Some(3) [OF Some] a show ?thesis by blast
  qed
qed

text \<open>
  The invariant of the loop of the general branch, after the prefix \<open>P\<close> of the text
  \<open>T\<close> has been read: the pushed segments, each followed by the separator, and then
  \<open>word\<close> make up \<open>P\<close>; \<open>word\<close> does not contain the separator; there are at most
  as many segments as occurrences of the separator in \<open>P\<close>, and exactly as many when
  the occurrences in \<open>T\<close> do not overlap.
\<close>

definition scan_inv :: "string \<Rightarrow> string \<Rightarrow> string \<Rightarrow> string \<Rightarrow> string list \<Rightarrow> bool" where
  "scan_inv T D P word acc \<longleftrightarrow>
     concat (map (\<lambda>s. s @ D) acc) @ word = P
     \<and> string_find word D 0 = None
     \<and> length acc \<le> length (findAll P D)
     \<and> (apart (length D) (findAll T D) \<longrightarrow> length acc = length (findAll P D))"

lemma scan_found:
  assumes D: "D \<noteq> []" and none: "string_find word D 0 = None"
    and some: "string_find (word @ [c]) D 0 = Some p"
  shows "ends_with D (word @ [c])" and "p = Suc (length word) - length D"
    and "string_erase (word @ [c]) p (length D) = Inr (take p (word @ [c]))"
    and "take p (word @ [c]) @ D = word @ [c]"
proof -
  from string_find_Some(3) [OF some] have "occurs_at D (word @ [c]) p" .
  moreover from none have "\<not> occurs_at D word p" by (simp add: string_find_None_iff)
  ultimately show ew: "ends_with D (word @ [c])" and p: "p = Suc (length word) - length D"
    by (simp_all add: occurs_at_snoc [OF D])
  from ew have le: "length D \<le> Suc (length word)"
    and d: "drop (Suc (length word) - length D) (word @ [c]) = D"
    by (simp_all add: ends_with_def)
  from p le have "p + length D = length (word @ [c])" by simp
  then show "string_erase (word @ [c]) p (length D) = Inr (take p (word @ [c]))"
    by (simp add: string_erase_def)
  have "take p (word @ [c]) @ drop p (word @ [c]) = word @ [c]" by (rule append_take_drop_id)
  with d p show "take p (word @ [c]) @ D = word @ [c]" by simp
qed

lemma scan_step_found:
  assumes D: "D \<noteq> []" and inv: "scan_inv T D P word acc"
    and some: "string_find (word @ [c]) D 0 = Some p"
  shows "scan_inv T D (P @ [c]) [] (acc @ [take p (word @ [c])])"
proof -
  from inv have j: "concat (map (\<lambda>s. s @ D) acc) @ word = P"
    and none: "string_find word D 0 = None"
    and le: "length acc \<le> length (findAll P D)"
    and eq: "apart (length D) (findAll T D) \<longrightarrow> length acc = length (findAll P D)"
    by (simp_all add: scan_inv_def)
  note f = scan_found [OF D none some]
  from j have "P @ [c] = concat (map (\<lambda>s. s @ D) acc) @ (word @ [c])" by simp
  with ends_with_append [OF f(1)] have "ends_with D (P @ [c])" by simp
  then have n: "length (findAll (P @ [c]) D) = Suc (length (findAll P D))"
    by (simp add: length_findAll_snoc [OF D])
  have "string_find [] D 0 = None" using D by (simp add: string_find_def)
  with j f(4) n le eq show ?thesis by (simp add: scan_inv_def)
qed

lemma scan_step_not_found:
  assumes D: "D \<noteq> []" and inv: "scan_inv T D P word acc"
    and none1: "string_find (word @ [c]) D 0 = None"
    and T: "T = P @ c # cs"
  shows "scan_inv T D (P @ [c]) (word @ [c]) acc"
proof -
  from inv have j: "concat (map (\<lambda>s. s @ D) acc) @ word = P"
    and le: "length acc \<le> length (findAll P D)"
    and eq: "apart (length D) (findAll T D) \<longrightarrow> length acc = length (findAll P D)"
    by (simp_all add: scan_inv_def)
  have new: "\<not> ends_with D (P @ [c])" if ap: "apart (length D) (findAll T D)"
  proof
    assume ew: "ends_with D (P @ [c])"
    from none1 have no: "\<not> ends_with D (word @ [c])"
      using ends_with_occurs [of D "word @ [c]"] by (auto simp: string_find_None_iff)
    from j have Pc: "P @ [c] = concat (map (\<lambda>s. s @ D) acc) @ (word @ [c])" by simp
    from ew no have short: "Suc (length word) < length D"
      using ends_with_appendD [of D "concat (map (\<lambda>s. s @ D) acc)" "word @ [c]"]
      unfolding Pc by (cases "length D \<le> length (word @ [c])") auto
    show False
    proof (cases acc rule: rev_cases)
      case Nil
      with j ew no show False by simp
    next
      case (snoc acc0 a)
      define X where "X = concat (map (\<lambda>s. s @ D) acc0) @ a"
      from j snoc have P: "P = X @ D @ word" by (simp add: X_def)
      have "occurs_at D (D @ word @ c # cs) 0" by (simp add: occurs_at_def)
      from occurs_at_append_right [OF this, of X]
      have o1: "occurs_at D T (length X)" by (simp add: T P)
      from ends_with_occurs [OF ew] have "occurs_at D (P @ [c]) (Suc (length P) - length D)"
        by simp
      from occurs_at_append_left [OF this, of cs]
      have o2: "occurs_at D T (Suc (length P) - length D)" by (simp add: T)
      have pos: "Suc (length P) - length D = length X + Suc (length word)"
        by (simp add: P)
      from ap o1 o2 have "length X + length D \<le> length X + Suc (length word)"
        unfolding apart_def set_findAll pos by auto
      with short show False by simp
    qed
  qed
  have n: "length (findAll (P @ [c]) D)
             = length (findAll P D) + (if ends_with D (P @ [c]) then 1 else 0)"
    by (rule length_findAll_snoc [OF D])
  from j none1 le eq n new show ?thesis by (auto simp: scan_inv_def)
qed

lemma separate_scan_inv:
  assumes "D \<noteq> []" and "length T < 2 ^ 31" and "T = P @ cs" and "scan_inv T D P word acc"
  shows "\<exists>word' acc'. separate_scan cs D word acc = Inr (word', acc')
           \<and> scan_inv T D T word' acc'"
  using assms(3,4)
proof (induction cs arbitrary: P word acc)
  case Nil
  then show ?case by simp
next
  case (Cons c cs)
  from Cons.prems have T: "T = (P @ [c]) @ cs" by simp
  from Cons.prems(2) have "concat (map (\<lambda>s. s @ D) acc) @ word = P"
    by (simp add: scan_inv_def)
  then have "length word \<le> length P" by (metis length_append le_add2)
  with Cons.prems(1) assms(2) have "length (word @ [c]) < 2 ^ 31" by simp
  note ci = contains_iff [OF this, of D]
  show ?case
  proof (cases "string_find (word @ [c]) D 0")
    case None
    from scan_step_not_found [OF assms(1) Cons.prems(2) None Cons.prems(1)]
    have "scan_inv T D (P @ [c]) (word @ [c]) acc" .
    from Cons.IH [OF T this] None ci show ?thesis by (simp add: Let_def)
  next
    case (Some p)
    from string_find_Some(3) [OF Some] have "occurs_at D (word @ [c]) p" .
    from Cons.prems(2) have none: "string_find word D 0 = None" by (simp add: scan_inv_def)
    note f = scan_found [OF assms(1) none Some]
    from scan_step_found [OF assms(1) Cons.prems(2) Some]
    have "scan_inv T D (P @ [c]) [] (acc @ [take p (word @ [c])])" .
    from Cons.IH [OF T this] Some ci f(3) show ?thesis
      by (simp add: Let_def size_t_of_def)
  qed
qed

lemma findAll_Nil: "D \<noteq> [] \<Longrightarrow> findAll [] D = []"
  by (simp add: findAll_def string_find_def)

lemma scan_inv_init: "D \<noteq> [] \<Longrightarrow> scan_inv T D [] [] []"
  by (simp add: scan_inv_def string_find_def findAll_Nil)

lemma separate_general_props:
  assumes "D \<noteq> []" and "length T < 2 ^ 31"
  shows "\<exists>segs. separate_general T D = Inr segs
           \<and> join D segs = T
           \<and> length segs \<le> length (findAll T D) + 1
           \<and> (apart (length D) (findAll T D) \<longrightarrow> length segs = length (findAll T D) + 1)"
proof -
  from separate_scan_inv [OF assms, of "[]" T "[]" "[]"] scan_inv_init [OF assms(1)]
  obtain word acc where s: "separate_scan T D [] [] = Inr (word, acc)"
    and inv: "scan_inv T D T word acc" by auto
  from s assms(2) have "separate_general T D = Inr (acc @ [word])"
    by (simp add: separate_general_def)
  with inv show ?thesis by (simp add: scan_inv_def join_snoc)
qed

lemma ends_with_single: "ends_with [c] (P @ [x]) \<longleftrightarrow> x = c"
  by (auto simp: ends_with_def)

lemma length_findAll_single: "length (findAll T [c]) = count_list T c"
proof (induction T rule: rev_induct)
  case Nil
  show ?case by (simp add: findAll_Nil)
next
  case (snoc x xs)
  then show ?case
    by (simp add: length_findAll_snoc ends_with_single)
qed

lemma pieces_last:
  "T \<noteq> [] \<Longrightarrow> last T \<noteq> c \<Longrightarrow>
     pieces c cur T \<noteq> [] \<and> last (pieces c cur T) \<noteq> []
     \<and> last (last (pieces c cur T)) = last T"
proof (induction T arbitrary: cur)
  case Nil
  then show ?case by simp
next
  case (Cons x xs)
  show ?case
  proof (cases "xs = []")
    case True
    with Cons.prems show ?thesis by simp
  next
    case False
    with Cons.prems have "last xs \<noteq> c" by simp
    from Cons.IH [OF False this] False show ?thesis by simp
  qed
qed

lemma separate_single_no_trailing:
  assumes "T \<noteq> []" "last T \<noteq> c"
  shows "separate_single T c = Inr (pieces c [] T)"
    and "length (pieces c [] T) = length (findAll T [c]) + 1"
proof -
  have segs: "separate_getline_loop (istringstream_of T) [] c [] = pieces c [] T"
    by (simp add: separate_getline_loop_pieces istringstream_of_def)
  from pieces_last [OF assms, of "[]"] assms
  show "separate_single T c = Inr (pieces c [] T)"
    by (simp add: separate_single_def segs string_back_def)
  from assms show "length (pieces c [] T) = length (findAll T [c]) + 1"
    by (simp add: length_pieces length_findAll_single)
qed

text \<open>
  C2 (as the code has it). Let \<open>D\<close> be a non-empty delimiter whose occurrences in
  \<open>T\<close> do not overlap. If \<open>D\<close> has two or more characters and \<open>T\<close> is shorter than
  \<open>2^31\<close> characters, or \<open>D\<close> is a single character and \<open>T\<close> is non-empty and does
  not end with it, then \<open>separate(T, D, false)\<close> returns exactly
  \<open>findAll(T, D).length + 1\<close> segments.
\<close>

theorem separate_segment_count:
  assumes "D \<noteq> []"
    and "apart (length D) (findAll T D)"
    and "if length D = 1 then T \<noteq> [] \<and> last T \<noteq> hd D else length T < 2 ^ 31"
  shows "\<exists>segs. separate T D False = Inr segs \<and> length segs = length (findAll T D) + 1"
proof (cases "length D = 1")
  case True
  then obtain c where D: "D = [c]" by (cases D) auto
  with assms(3) have "T \<noteq> []" "last T \<noteq> c" by simp_all
  from separate_single_no_trailing [OF this] D show ?thesis
    by (simp add: separate_def)
next
  case False
  with assms(3) have "length T < 2 ^ 31" by simp
  from separate_general_props [OF assms(1) this] assms(2) False show ?thesis
    by (auto simp: separate_def)
qed

text \<open>The facts that evaluate \<open>separate\<close> on a given text.\<close>

lemmas separate_eval =
  separate_def separate_single_def separate_general_def separate_getline_loop.simps
  getline_def istringstream_of_def string_back_def string_erase_def contains_def
  size_t_of_def int_of_size_t_def size_t_of_int_def npos_def string_find_def Let_def

theorem separate_segment_count_witness:
  "''--'' \<noteq> [] \<and> apart (length ''--'') (findAll ''a--b--'' ''--'')
   \<and> (if length ''--'' = 1 then ''a--b--'' \<noteq> [] \<and> last ''a--b--'' \<noteq> hd ''--''
       else length ''a--b--'' < 2 ^ 31)
   \<and> (\<exists>segs. separate ''a--b--'' ''--'' False = Inr segs
         \<and> length segs = length (findAll ''a--b--'' ''--'') + 1)"
proof -
  have h1: "''--'' \<noteq> []" by simp
  have h2: "apart (length ''--'') (findAll ''a--b--'' ''--'')"
    by (simp add: apart_def findAll_def string_find_def)
  have h3: "if length ''--'' = 1 then ''a--b--'' \<noteq> [] \<and> last ''a--b--'' \<noteq> hd ''--''
            else length ''a--b--'' < 2 ^ 31" by simp
  from separate_segment_count [OF h1 h2 h3] h1 h2 h3 show ?thesis by blast
qed

text \<open>
  C2 (as stated) fails where occurrences overlap: \<open>findAll("aaa", "aa")\<close> finds two
  occurrences, and \<open>separate("aaa", "aa", false)\<close> returns two segments, not three.
\<close>

theorem separate_segment_count_counterexample:
  "separate ''aaa'' ''aa'' False = Inr [[], ''a'']
   \<and> length [[], ''a''] \<noteq> length (findAll ''aaa'' ''aa'') + 1"
  by (simp add: separate_eval findAll_def)

text \<open>
  C3 fails on the single-character branch: \<open>std::getline\<close> returns no empty last line
  after a trailing separator, so \<open>separate("a,", ",", false)\<close> is \<open>["a"]\<close>, which joins
  to \<open>a\<close> and not to \<open>a,\<close>.
\<close>

theorem separate_drops_trailing_segment:
  "separate ''a,'' '','' False = Inr [''a''] \<and> join '','' [''a''] \<noteq> ''a,''"
  by (simp add: separate_eval)

text \<open>
  The general branch does reconstruct the text: with a separator of two or more
  characters the segments joined by the separator give the text back, a trailing empty
  segment included (\<open>separate("a--", "--", false)\<close> is \<open>["a", ""]\<close>).
\<close>

lemma separate_general_round_trip:
  assumes "2 \<le> length D" "length T < 2 ^ 31"
  shows "\<exists>segs. separate T D False = Inr segs \<and> join D segs = T"
proof -
  from assms(1) have D: "D \<noteq> []" "length D \<noteq> 1" by auto
  from separate_general_props [OF D(1) assms(2)] D(2) show ?thesis
    by (auto simp: separate_def)
qed

lemma separate_general_keeps_trailing_segment:
  "separate ''a--'' ''--'' False = Inr [''a'', []]"
  by (simp add: separate_eval)

section \<open>trim\<close>

text \<open>\<open>s.substr(pos, n)\<close> throws when \<open>pos > s.size()\<close>.\<close>

definition string_substr :: "string \<Rightarrow> nat \<Rightarrow> nat \<Rightarrow> fault + string" where
  "string_substr s pos n =
     (if length s < pos then Inl out_of_range else Inr (take n (drop pos s)))"

text \<open>
  \<open>charsToTrim\<close> is an \<open>int\<close>. It is converted to \<open>size_t\<close> where it is compared
  with \<open>str.length()/2\<close> and where \<open>charsToTrim * 2\<close>, computed as an \<open>int\<close>, is
  subtracted from \<open>str.length()\<close>.
\<close>

definition trim :: "string \<Rightarrow> int \<Rightarrow> fault + string" where
  "trim str charsToTrim =
     (if charsToTrim < 0 then Inr str
      else if length str div 2 \<le> size_t_of_int charsToTrim then Inr []
      else if 2 ^ 31 \<le> charsToTrim * 2 then Inl signed_overflow
      else string_substr str (size_t_of_int charsToTrim)
             ((length str + 2 ^ 64 - size_t_of_int (charsToTrim * 2)) mod 2 ^ 64))"

text \<open>
  C4 fails on the code. The test is \<open>charsToTrim >= str.length()/2\<close> with integer
  division, which is true for count 0 on a one-character text and for count 1 on a
  three-character text: \<open>trim("a", 0)\<close> is empty instead of \<open>a\<close>, and
  \<open>trim("abc", 1)\<close> is empty instead of \<open>b\<close>.
\<close>

theorem trim_rounds_half_down:
  "trim ''a'' 0 = Inr [] \<and> trim ''abc'' 1 = Inr []"
  by (simp add: trim_def size_t_of_int_def)

text \<open>
  What \<open>trim\<close> returns for a count that is not negative: the middle of the text,
  unless the count reaches half the length rounded down.
\<close>

lemma trim_nonnegative_count:
  assumes "0 \<le> n" "n < 2 ^ 30" "length T < 2 ^ 64"
  shows "trim T n = Inr (if length T div 2 \<le> nat n then []
                         else take (length T - 2 * nat n) (drop (nat n) T))"
proof -
  from assms(1,2) have n1: "size_t_of_int n = nat n"
    by (simp add: size_t_of_int_def)
  from assms(1,2) have "n * 2 < 2 ^ 64" by simp
  with assms(1) have n2: "size_t_of_int (n * 2) = 2 * nat n"
    by (simp add: size_t_of_int_def nat_mult_distrib)
  from assms(2) have no: "\<not> (2 ^ 31 \<le> n * 2)" by simp
  show ?thesis
  proof (cases "length T div 2 \<le> nat n")
    case True
    with assms(1) n1 show ?thesis by (simp add: trim_def)
  next
    case False
    then have le: "2 * nat n \<le> length T" "nat n \<le> length T" by arith+
    then have "length T + 2 ^ 64 - 2 * nat n = (length T - 2 * nat n) + 2 ^ 64" by simp
    moreover have "length T - 2 * nat n < 2 ^ 64" using assms(3) by arith
    ultimately have m: "(length T + 2 ^ 64 - 2 * nat n) mod 2 ^ 64 = length T - 2 * nat n"
      by (simp only: mod_add_self2 mod_less)
    from False assms(1) no show ?thesis
      unfolding trim_def n1 n2 m string_substr_def using le(2) by simp
  qed
qed

text \<open>
  C5 (as the code has it). For a negative count \<open>trim\<close> returns the text unchanged;
  it raises nothing.
\<close>

theorem trim_negative_count:
  "n < 0 \<Longrightarrow> trim T n = Inr T"
  by (simp add: trim_def)

theorem trim_negative_count_witness:
  "(- 1 :: int) < 0 \<and> trim ''Hello, world!'' (- 1) = Inr ''Hello, world!''"
proof -
  have h: "(- 1 :: int) < 0" by simp
  from trim_negative_count [OF h, of "''Hello, world!''"] h show ?thesis by simp
qed

text \<open>
  C5 (as stated) fails: \<open>trim("abc", -1)\<close> returns normally, with the text passed
  through.
\<close>

theorem trim_negative_count_counterexample:
  "trim ''abc'' (- 1) = Inr ''abc''"
  by (simp add: trim_def)

section \<open>wrapToWidth\<close>

text \<open>
  \<open>str.rfind(sub, pos)\<close>: the highest offset \<open>xpos \<le> pos\<close> with
  \<open>xpos + sub.size() \<le> str.size()\<close> at which \<open>sub\<close> occurs. \<open>rfind_scan\<close> walks
  down from the highest candidate.
\<close>

fun rfind_scan :: "string \<Rightarrow> string \<Rightarrow> nat \<Rightarrow> nat option" where
  "rfind_scan sub str k =
     (if take (length sub) (drop k str) = sub then Some k
      else if k = 0 then None
      else rfind_scan sub str (k - 1))"

declare rfind_scan.simps [simp del]

definition string_rfind :: "string \<Rightarrow> string \<Rightarrow> nat \<Rightarrow> nat option" where
  "string_rfind str sub pos =
     (if length str < length sub then None
      else rfind_scan sub str (min pos (length str - length sub)))"

text \<open>
  The inner \<open>while (true)\<close> loop on one line. \<open>wrapWidth\<close> and \<open>lineCutOffIndex\<close>
  are \<open>int\<close>s: \<open>wrapWidth\<close> is converted to \<open>size_t\<close> in the comparison with
  \<open>line.length()\<close> and as an argument of \<open>rfind\<close> and \<open>substr\<close>, the result of
  \<open>rfind\<close> is converted to \<open>int\<close> and back for the comparison with \<open>npos\<close>. The
  loop returns the line that is left and the output. A loop that does not return has
  the value \<open>None\<close>.
\<close>

partial_function (option) wrapToWidth_inner ::
  "int \<Rightarrow> string \<Rightarrow> string \<Rightarrow> (fault + string \<times> string) option" where
  "wrapToWidth_inner wrapWidth line output =
     (if size_t_of_int wrapWidth < length line then
        (let lineCutOffIndex = int_of_size_t (size_t_of (string_rfind line '' '' (size_t_of_int wrapWidth)))
         in if size_t_of_int lineCutOffIndex = npos then
              (case string_substr line 0 (size_t_of_int wrapWidth) of
                 Inl e \<Rightarrow> Some (Inl e)
               | Inr part \<Rightarrow>
                   if 2 ^ 31 \<le> wrapWidth + 1 then Some (Inl signed_overflow)
                   else (case string_substr line (size_t_of_int (wrapWidth + 1)) npos of
                           Inl e \<Rightarrow> Some (Inl e)
                         | Inr rest \<Rightarrow>
                             wrapToWidth_inner wrapWidth rest (output @ part @ [newline])))
            else
              (case string_substr line 0 (size_t_of_int lineCutOffIndex) of
                 Inl e \<Rightarrow> Some (Inl e)
               | Inr part \<Rightarrow>
                   if 2 ^ 31 \<le> lineCutOffIndex + 1 then Some (Inl signed_overflow)
                   else (case string_substr line (size_t_of_int (lineCutOffIndex + 1)) npos of
                           Inl e \<Rightarrow> Some (Inl e)
                         | Inr rest \<Rightarrow>
                             wrapToWidth_inner wrapWidth rest (output @ part @ [newline]))))
      else Some (Inr (line, output @ line)))"

text \<open>
  The outer \<open>while (getline(in, line))\<close> loop. The test for the newline after a line
  reads \<open>line\<close> as the inner loop has left it. \<open>currLineNum\<close> is an \<open>int\<close>, and
  so is \<open>numberOfLines\<close>, which \<open>countLines\<close> computes before the loop.
\<close>

partial_function (option) wrapToWidth_loop ::
  "istringstream \<Rightarrow> string \<Rightarrow> string \<Rightarrow> int \<Rightarrow> int \<Rightarrow> int \<Rightarrow> (fault + string) option" where
  "wrapToWidth_loop in' line output currLineNum numberOfLines wrapWidth =
     (case getline in' line newline of
        (in1, line1) \<Rightarrow>
          if failbit in1 then Some (Inr output)
          else (case wrapToWidth_inner wrapWidth line1 output of
                  None \<Rightarrow> None
                | Some (Inl e) \<Rightarrow> Some (Inl e)
                | Some (Inr (line2, output2)) \<Rightarrow>
                    if 2 ^ 31 \<le> currLineNum + 1 then Some (Inl signed_overflow)
                    else
                      (let currLineNum2 = currLineNum + 1;
                           output3 = (if currLineNum2 < numberOfLines
                                         \<or> (length line2 = 0 \<and> numberOfLines = 1)
                                      then output2 @ [newline] else output2)
                       in wrapToWidth_loop in1 line2 output3 currLineNum2 numberOfLines
                            wrapWidth)))"

definition wrapToWidth :: "string \<Rightarrow> int \<Rightarrow> (fault + string) option" where
  "wrapToWidth str wrapWidth =
     (case countLines str of
        Inl e \<Rightarrow> Some (Inl e)
      | Inr numberOfLines \<Rightarrow>
          wrapToWidth_loop (istringstream_of str) [] [] 0 numberOfLines wrapWidth)"



text \<open>The facts that evaluate \<open>wrapToWidth\<close> on a given text.\<close>

lemmas wrapToWidth_eval =
  wrapToWidth_def wrapToWidth_loop.simps wrapToWidth_inner.simps countLines_def
  countLines_loop.simps getline_def istringstream_of_def string_substr_def
  string_rfind_def rfind_scan.simps size_t_of_def int_of_size_t_def size_t_of_int_def
  npos_def Let_def

text \<open>
  C6 fails on the code. After a hard break the code continues at
  \<open>line.substr(wrapWidth + 1)\<close>, which drops the character after the cut:
  \<open>wrapToWidth("111222333", 3)\<close> is \<open>111\n223\n3\<close>, and
  \<open>wrapToWidth("111112", 5)\<close> is \<open>11111\n\n\<close> (the \<open>2\<close> is dropped, and the
  empty rest of a single line draws a second newline).
\<close>

theorem wrapToWidth_hard_break_drops_character:
  "wrapToWidth ''111222333'' 3 = Some (Inr ''111\<newline>223\<newline>3'')
   \<and> wrapToWidth ''111112'' 5 = Some (Inr ''11111\<newline>\<newline>'')"
  by (simp add: wrapToWidth_eval)

text \<open>Where there are spaces to break at, nothing but the spaces is dropped.\<close>

lemma wrapToWidth_breaks_at_spaces:
  "wrapToWidth ''hello world foo'' 7 = Some (Inr ''hello\<newline>world\<newline>foo'')"
  by (simp add: wrapToWidth_eval)

text \<open>
  C7 fails on the code. With width 0 every character of the line is dropped and a
  newline is written for each, and one more after the line:
  \<open>wrapToWidth("111222333", 0)\<close> is ten newlines. A negative width becomes a huge
  \<open>size_t\<close> in \<open>line.length() > wrapWidth\<close>, so the line passes through unchanged:
  \<open>wrapToWidth("abc", -1)\<close> is \<open>abc\<close>.
\<close>

theorem wrapToWidth_nonpositive_width:
  "wrapToWidth ''111222333'' 0
     = Some (Inr ''\<newline>\<newline>\<newline>\<newline>\<newline>\<newline>\<newline>\<newline>\<newline>\<newline>'')
   \<and> wrapToWidth ''abc'' (- 1) = Some (Inr ''abc'')"
  by (simp add: wrapToWidth_eval)

section \<open>isFloat\<close>

text \<open>\<open>isdigit\<close> in the C locale: the ten decimal digits.\<close>

definition isdigit :: "char \<Rightarrow> bool" where
  "isdigit c = (c \<in> set ''0123456789'')"

text \<open>The error codes of \<open>std::from_chars\<close> that \<open>isFloat\<close> tells apart.\<close>

datatype errc = no_error | invalid_argument | result_out_of_range

text \<open>
  \<open>std::from_chars\<close> for \<open>double\<close> in the general format is part of the C++ library,
  not of this repository; it is modelled from the C++ standard. It matches the longest
  prefix of the text that has the form strtod expects in the C locale, without a leading
  plus sign: an optional minus sign, then digits with an optional \<open>.\<close> among them and
  an optional exponent (\<open>e\<close> or \<open>E\<close>, an optional sign, digits), or \<open>inf\<close>,
  \<open>infinity\<close> or \<open>nan\<close> in any case. The decimal point is always \<open>.\<close>, whatever the
  locale. \<open>from_chars_parse\<close> returns \<open>no_match\<close> when no prefix matches,
  \<open>not_finite\<close> for one of the words, and \<open>decimal N e\<close> for a number of magnitude
  \<open>N * 10^e\<close>.
\<close>

definition starts_nocase :: "string \<Rightarrow> string \<Rightarrow> string \<Rightarrow> bool" where
  "starts_nocase lower upper s =
     (length lower \<le> length s
      \<and> list_all (\<lambda>(c, l, u). c = l \<or> c = u) (zip s (zip lower upper)))"

definition digit_value :: "char \<Rightarrow> nat" where
  "digit_value c = of_char c - 48"

definition digits_value :: "string \<Rightarrow> nat" where
  "digits_value ds = foldl (\<lambda>a c. 10 * a + digit_value c) 0 ds"

definition exponent_part :: "string \<Rightarrow> int" where
  "exponent_part r =
     (case r of
        [] \<Rightarrow> 0
      | c # t \<Rightarrow>
          if c = CHR ''e'' \<or> c = CHR ''E'' then
            (let negative = (case t of [] \<Rightarrow> False | s # u \<Rightarrow> s = CHR ''-'');
                 digits = takeWhile isdigit
                            (case t of [] \<Rightarrow> []
                             | s # u \<Rightarrow> if s = CHR ''-'' \<or> s = CHR ''+'' then u else t)
             in if digits = [] then 0
                else if negative then - int (digits_value digits)
                else int (digits_value digits))
          else 0)"

datatype parsed = no_match | not_finite | decimal nat int

definition from_chars_parse :: "string \<Rightarrow> parsed" where
  "from_chars_parse s =
     (let body = (case s of [] \<Rightarrow> [] | c # cs \<Rightarrow> if c = CHR ''-'' then cs else s);
          whole = takeWhile isdigit body;
          after_whole = dropWhile isdigit body;
          frac = (case after_whole of [] \<Rightarrow> []
                  | c # t \<Rightarrow> if c = CHR ''.'' then takeWhile isdigit t else []);
          after_frac = (case after_whole of [] \<Rightarrow> []
                        | c # t \<Rightarrow> if c = CHR ''.'' then dropWhile isdigit t else after_whole)
      in if starts_nocase ''inf'' ''INF'' body \<or> starts_nocase ''nan'' ''NAN'' body
         then not_finite
         else if whole = [] \<and> frac = [] then no_match
         else decimal (digits_value (whole @ frac))
                (exponent_part after_frac - int (length frac)))"

text \<open>
  The range of \<open>double\<close>, on the exact magnitude \<open>N * 10^e\<close>, compared without
  division. A number that is zero, or whose magnitude lies between the smallest normal
  value \<open>2^-1022\<close> and the largest value \<open>2^1024 - 2^971\<close>, is in range. A magnitude of
  \<open>2^1024\<close> or more is out of range.
\<close>

definition in_normal_range :: "nat \<Rightarrow> int \<Rightarrow> bool" where
  "in_normal_range N e =
     (let a = N * 10 ^ nat e; b = 10 ^ nat (- e)
      in a = 0 \<or> (b \<le> a * 2 ^ 1022 \<and> a \<le> (2 ^ 1024 - 2 ^ 971) * b))"

definition beyond_range :: "nat \<Rightarrow> int \<Rightarrow> bool" where
  "beyond_range N e = (2 ^ 1024 * 10 ^ nat (- e) \<le> N * 10 ^ nat e)"

text \<open>
  Between these (a magnitude above the largest value and below \<open>2^1024\<close>, or a non-zero
  magnitude below \<open>2^-1022\<close>) the result depends on rounding and on how the library
  treats underflow; the parameter \<open>boundary\<close> says for which texts
  \<open>result_out_of_range\<close> is reported there.
\<close>

definition from_chars_double :: "(string \<Rightarrow> bool) \<Rightarrow> string \<Rightarrow> errc" where
  "from_chars_double boundary s =
     (case from_chars_parse s of
        no_match \<Rightarrow> invalid_argument
      | not_finite \<Rightarrow> no_error
      | decimal N e \<Rightarrow>
          if in_normal_range N e then no_error
          else if beyond_range N e then result_out_of_range
          else if boundary s then result_out_of_range
          else no_error)"

text \<open>
  The loop of \<open>isFloat\<close> over the characters; \<open>point\<close> is the decimal point of the
  locale of \<open>std::cout\<close>. It returns \<open>None\<close> where the code returns \<open>false\<close> from
  inside the loop, and otherwise whether a decimal point was seen. The counter is an
  \<open>int\<close>.
\<close>

fun isFloat_loop :: "char \<Rightarrow> string \<Rightarrow> int \<Rightarrow> bool \<Rightarrow> fault + bool option" where
  "isFloat_loop point [] charIndex seenDecimalPoint = Inr (Some seenDecimalPoint)"
| "isFloat_loop point (c # cs) charIndex seenDecimalPoint =
     (if charIndex = 0 \<and> c = CHR ''-'' then
        (if 2 ^ 31 \<le> charIndex + 1 then Inl signed_overflow
         else isFloat_loop point cs (charIndex + 1) seenDecimalPoint)
      else if \<not> seenDecimalPoint \<and> c = point then
        (if 2 ^ 31 \<le> charIndex + 1 then Inl signed_overflow
         else isFloat_loop point cs (charIndex + 1) True)
      else if \<not> isdigit c then Inr None
      else (if 2 ^ 31 \<le> charIndex + 1 then Inl signed_overflow
            else isFloat_loop point cs (charIndex + 1) seenDecimalPoint))"

definition isFloat :: "(string \<Rightarrow> bool) \<Rightarrow> char \<Rightarrow> string \<Rightarrow> fault + bool" where
  "isFloat boundary point str =
     (case isFloat_loop point str 0 False of
        Inl e \<Rightarrow> Inl e
      | Inr None \<Rightarrow> Inr False
      | Inr (Some seenDecimalPoint) \<Rightarrow>
          if \<not> seenDecimalPoint then Inr False
          else (let ec = from_chars_double boundary str
                in if ec = invalid_argument then Inr False
                   else if ec = result_out_of_range then Inr False
                   else Inr True))"

text \<open>
  The grammar of the specification, \<open>'-'? digit* decimalPoint digit*\<close>, written from
  the specification's words.
\<close>

definition spec_float_grammar :: "char \<Rightarrow> string \<Rightarrow> bool" where
  "spec_float_grammar point s =
     (let body = (case s of [] \<Rightarrow> [] | c # cs \<Rightarrow> if c = CHR ''-'' then cs else s)
      in case dropWhile isdigit body of
           [] \<Rightarrow> False
         | c # frac \<Rightarrow> c = point \<and> list_all isdigit frac)"

text \<open>
  A library that reports no range error between the sure ranges, to evaluate
  \<open>isFloat\<close> with.
\<close>

definition no_boundary_error :: "string \<Rightarrow> bool" where
  "no_boundary_error s = False"

lemma isFloat_loop_seen:
  "0 < k \<Longrightarrow> k + int (length cs) < 2 ^ 31 \<Longrightarrow>
     isFloat_loop point cs k True = Inr (if list_all isdigit cs then Some True else None)"
  by (induction cs arbitrary: k) auto

lemma isFloat_loop_unseen:
  "0 < k \<Longrightarrow> k + int (length cs) < 2 ^ 31 \<Longrightarrow> \<not> isdigit point \<Longrightarrow>
     isFloat_loop point cs k False
       = Inr (case dropWhile isdigit cs of
                [] \<Rightarrow> Some False
              | c # frac \<Rightarrow> if c = point \<and> list_all isdigit frac then Some True else None)"
proof (induction cs arbitrary: k)
  case Nil
  then show ?case by simp
next
  case (Cons c cs)
  then show ?case by (auto simp: isFloat_loop_seen)
qed

lemma isFloat_loop_start:
  assumes "int (length s) < 2 ^ 31" "\<not> isdigit point" "point \<noteq> CHR ''-''"
  shows "isFloat_loop point s 0 False
       = Inr (case dropWhile isdigit
                     (case s of [] \<Rightarrow> [] | c # cs \<Rightarrow> if c = CHR ''-'' then cs else s) of
                [] \<Rightarrow> Some False
              | c # frac \<Rightarrow> if c = point \<and> list_all isdigit frac then Some True else None)"
proof (cases s)
  case Nil
  then show ?thesis by simp
next
  case (Cons c cs)
  have m: "\<not> isdigit (CHR ''-'')" by (simp add: isdigit_def)
  from assms(1) Cons have len: "1 + int (length cs) < 2 ^ 31" by simp
  show ?thesis
    using assms(2,3) m len Cons
    by (auto simp: isFloat_loop_seen isFloat_loop_unseen)
qed

lemma takeWhile_dropWhile_Cons:
  "dropWhile P xs = c # rest \<Longrightarrow> xs = takeWhile P xs @ c # rest"
  by (metis takeWhile_dropWhile_id)

lemma count_list_digits: "list_all isdigit xs \<Longrightarrow> \<not> isdigit p \<Longrightarrow> count_list xs p = 0"
  by (induction xs) auto

lemma count_list_append': "count_list (xs @ ys) x = count_list xs x + count_list ys x"
  by (induction xs) auto

lemma grammar_one_point:
  assumes "spec_float_grammar point T" "point \<noteq> CHR ''-''" "\<not> isdigit point"
  shows "count_list T point = 1"
proof -
  define body where "body = (case T of [] \<Rightarrow> [] | c # cs \<Rightarrow> if c = CHR ''-'' then cs else T)"
  from assms(1) obtain frac where dw: "dropWhile isdigit body = point # frac"
    and fr: "list_all isdigit frac"
    by (auto simp: spec_float_grammar_def body_def [symmetric] split: list.splits)
  have b: "body = takeWhile isdigit body @ point # frac"
    by (rule takeWhile_dropWhile_Cons [OF dw])
  have "list_all isdigit (takeWhile isdigit body)"
    by (simp add: list_all_iff) (meson set_takeWhileD)
  then have "count_list (takeWhile isdigit body) point = 0"
    using assms(3) by (rule count_list_digits)
  moreover from fr assms(3) have "count_list frac point = 0" by (rule count_list_digits)
  ultimately have "count_list body point = 1"
    by (subst b) (simp add: count_list_append')
  moreover have "count_list T point = count_list body point"
    using assms(2) by (cases T) (auto simp: body_def)
  ultimately show ?thesis by simp
qed

lemma from_chars_double_invalid:
  "from_chars_double boundary s = invalid_argument \<longleftrightarrow> from_chars_parse s = no_match"
  by (cases "from_chars_parse s") (simp_all add: from_chars_double_def)

text \<open>
  On a text of the grammar with \<open>.\<close> as the decimal point, \<open>std::from_chars\<close> finds
  a number exactly when the text has a digit.
\<close>

lemma grammar_no_match:
  assumes "spec_float_grammar (CHR ''.'') T"
  shows "from_chars_parse T = no_match \<longleftrightarrow> filter isdigit T = []"
proof -
  define body where "body = (case T of [] \<Rightarrow> [] | c # cs \<Rightarrow> if c = CHR ''-'' then cs else T)"
  from assms obtain frac where dw: "dropWhile isdigit body = CHR ''.'' # frac"
    and fr: "list_all isdigit frac"
    by (auto simp: spec_float_grammar_def body_def [symmetric] split: list.splits)
  have nd: "\<not> isdigit (CHR ''.'')" "\<not> isdigit (CHR ''-'')" by (simp_all add: isdigit_def)
  have fT: "filter isdigit T = filter isdigit body"
    using nd by (cases T) (auto simp: body_def)
  have b: "body = takeWhile isdigit body @ CHR ''.'' # frac"
    by (rule takeWhile_dropWhile_Cons [OF dw])
  have tw: "list_all isdigit (takeWhile isdigit body)"
    by (simp add: list_all_iff) (meson set_takeWhileD)
  have "filter isdigit body = filter isdigit (takeWhile isdigit body @ CHR ''.'' # frac)"
    using b by simp
  also have "\<dots> = takeWhile isdigit body @ frac"
    using tw fr nd by (simp add: list_all_iff filter_id_conv)
  finally have fb: "filter isdigit body = takeWhile isdigit body @ frac" .
  have frac: "takeWhile isdigit frac = frac"
    using fr by (simp add: list_all_iff takeWhile_eq_all_conv)
  have ni: "\<not> starts_nocase ''inf'' ''INF'' body \<and> \<not> starts_nocase ''nan'' ''NAN'' body"
  proof (cases "takeWhile isdigit body")
    case Nil
    with b have "body = CHR ''.'' # frac" by simp
    then show ?thesis by (simp add: starts_nocase_def)
  next
    case (Cons d ds)
    with tw have d: "isdigit d" by simp
    from b Cons have "body = d # ds @ CHR ''.'' # frac" by simp
    with d show ?thesis by (auto simp: starts_nocase_def isdigit_def)
  qed
  have "from_chars_parse T
          = (if takeWhile isdigit body = [] \<and> frac = [] then no_match
             else decimal (digits_value (takeWhile isdigit body @ frac))
                    (exponent_part (dropWhile isdigit frac) - int (length frac)))"
    unfolding from_chars_parse_def body_def [symmetric] Let_def dw
    using ni by (simp add: frac)
  then show ?thesis using fT fb by simp
qed

text \<open>
  For any decimal point that is neither a digit nor the minus sign, \<open>isFloat\<close> accepts
  the texts of the grammar for which \<open>std::from_chars\<close> reports no error.
\<close>

lemma isFloat_general:
  assumes "point \<noteq> CHR ''-''" "\<not> isdigit point" "length T < 2 ^ 31"
  shows "isFloat boundary point T
           = Inr (spec_float_grammar point T \<and> from_chars_double boundary T = no_error)"
proof -
  from assms(3) have "int (length T) < 2 ^ 31"
    by (metis of_nat_less_iff of_nat_numeral of_nat_power)
  note l = isFloat_loop_start [OF this assms(2,1)]
  define rest where "rest = dropWhile isdigit
      (case T of [] \<Rightarrow> [] | c # cs \<Rightarrow> if c = CHR ''-'' then cs else T)"
  have g: "spec_float_grammar point T
             = (case rest of [] \<Rightarrow> False | c # frac \<Rightarrow> c = point \<and> list_all isdigit frac)"
    unfolding spec_float_grammar_def Let_def rest_def by (rule refl)
  have l': "isFloat_loop point T 0 False
       = Inr (case rest of [] \<Rightarrow> Some False
              | c # frac \<Rightarrow> if c = point \<and> list_all isdigit frac then Some True else None)"
    unfolding l rest_def by (rule refl)
  show ?thesis
    unfolding isFloat_def l' g
    by (cases rest; cases "from_chars_double boundary T") (auto simp: Let_def)
qed

text \<open>
  A range error gives \<open>false\<close>: a one followed by 309 zeros or more is at least
  \<open>2^1024\<close>, beyond every \<open>double\<close>.
\<close>

lemma beyond_not_normal:
  assumes "beyond_range N e" shows "\<not> in_normal_range N e"
proof -
  define a where "a = N * 10 ^ nat e"
  define b :: nat where "b = 10 ^ nat (- e)"
  define top :: nat where "top = 2 ^ 1024"
  define dmax :: nat where "dmax = 2 ^ 1024 - 2 ^ 971"
  from assms have le: "top * b \<le> a" by (simp add: beyond_range_def a_def b_def top_def)
  have pos: "0 < b" by (simp add: b_def)
  have "dmax < top" by (simp add: dmax_def top_def)
  then have "dmax * b < top * b" using pos by simp
  with le have lt: "dmax * b < a" by linarith
  then have "a \<noteq> 0" by simp
  with lt have "\<not> (a = 0 \<or> (b \<le> a * 2 ^ 1022 \<and> a \<le> dmax * b))" by simp
  then show ?thesis
    unfolding in_normal_range_def Let_def a_def b_def dmax_def .
qed

lemma foldl_digits_zeros:
  "foldl (\<lambda>a c. 10 * a + digit_value c) n (replicate k (CHR ''0'')) = n * 10 ^ k"
  by (induction k arbitrary: n) (simp_all add: digit_value_def)

lemma takeWhile_zeros:
  "takeWhile isdigit (replicate k (CHR ''0'') @ CHR ''.'' # r) = replicate k (CHR ''0'')"
  by (induction k) (simp_all add: isdigit_def)

lemma dropWhile_zeros:
  "dropWhile isdigit (replicate k (CHR ''0'') @ CHR ''.'' # r) = CHR ''.'' # r"
  by (induction k) (simp_all add: isdigit_def)

lemma parse_one_zeros:
  "from_chars_parse (CHR ''1'' # replicate k (CHR ''0'') @ ''.0'') = decimal (10 ^ Suc k) (- 1)"
proof -
  have d: "isdigit (CHR ''1'')" "isdigit (CHR ''0'')" by (simp_all add: isdigit_def)
  have "digits_value (CHR ''1'' # replicate k (CHR ''0'') @ ''0'')
          = foldl (\<lambda>a c. 10 * a + digit_value c)
              (foldl (\<lambda>a c. 10 * a + digit_value c) 1 (replicate k (CHR ''0''))) ''0''"
    by (simp add: digits_value_def digit_value_def)
  also have "\<dots> = 10 ^ Suc k"
    unfolding foldl_digits_zeros by (simp add: digit_value_def)
  finally have v: "digits_value (CHR ''1'' # replicate k (CHR ''0'') @ ''0'') = 10 ^ Suc k" .
  show ?thesis
    unfolding from_chars_parse_def Let_def
    using v
    by (simp add: d takeWhile_zeros dropWhile_zeros starts_nocase_def exponent_part_def)
qed

lemma isFloat_overflow:
  assumes "309 \<le> k" "k + 3 < 2 ^ 31"
  shows "isFloat boundary (CHR ''.'') (CHR ''1'' # replicate k (CHR ''0'') @ ''.0'') = Inr False"
proof -
  let ?T = "CHR ''1'' # replicate k (CHR ''0'') @ ''.0''"
  have nd: "CHR ''.'' \<noteq> CHR ''-''" "\<not> isdigit (CHR ''.'')" by (simp_all add: isdigit_def)
  from assms(2) have len: "length ?T < 2 ^ 31" by simp
  have "(2::nat) ^ 1024 \<le> 10 ^ 309" by simp
  also have "\<dots> \<le> 10 ^ k" using assms(1) by (intro power_increasing) simp_all
  finally have "(2::nat) ^ 1024 * 10 \<le> 10 ^ k * 10" by (rule mult_le_mono1)
  then have "beyond_range (10 ^ Suc k) (- 1)" by (simp add: beyond_range_def mult.commute)
  with beyond_not_normal [OF this]
  have "from_chars_double boundary ?T = result_out_of_range"
    by (simp add: from_chars_double_def parse_one_zeros)
  then show ?thesis
    unfolding isFloat_general [OF nd len] by simp
qed

text \<open>
  With a decimal point other than \<open>.\<close> the loop follows the locale and
  \<open>std::from_chars\<close> does not: with \<open>,\<close> the text \<open>,5\<close> passes the loop, and
  \<open>std::from_chars\<close> finds no number in it.
\<close>

lemma isFloat_comma_locale:
  "isFloat boundary (CHR '','') '',5'' = Inr False"
  by (simp add: isFloat_def isdigit_def from_chars_double_def from_chars_parse_def
        starts_nocase_def)

text \<open>
  C8 (as the code has it), with \<open>.\<close> as the decimal point and a text shorter than
  \<open>2^31\<close> characters: \<open>isFloat(T)\<close> is true if and only if \<open>T\<close> matches
  \<open>'-'? digit* '.' digit*\<close>, has exactly one \<open>.\<close>, has at least one digit, and
  \<open>std::from_chars\<close> reports no range error for it; a range error gives false, not an
  error. \<open>isFloat(".2")\<close> is true, \<open>isFloat("7.0.0")\<close> is false and \<open>isFloat(".")\<close>
  is false.
\<close>

theorem isFloat_grammar:
  assumes "length T < 2 ^ 31"
  shows "isFloat boundary (CHR ''.'') T
           = Inr (spec_float_grammar (CHR ''.'') T \<and> count_list T (CHR ''.'') = 1
                  \<and> filter isdigit T \<noteq> []
                  \<and> from_chars_double boundary T \<noteq> result_out_of_range)
         \<and> isFloat boundary (CHR ''.'') ''.2'' = Inr True
         \<and> isFloat boundary (CHR ''.'') ''7.0.0'' = Inr False
         \<and> isFloat boundary (CHR ''.'') ''.'' = Inr False"
proof -
  have nd: "CHR ''.'' \<noteq> CHR ''-''" "\<not> isdigit (CHR ''.'')" by (simp_all add: isdigit_def)
  have e: "from_chars_double boundary T = no_error
             \<longleftrightarrow> from_chars_parse T \<noteq> no_match
                 \<and> from_chars_double boundary T \<noteq> result_out_of_range"
    using from_chars_double_invalid [of boundary T]
    by (cases "from_chars_double boundary T") auto
  have a: "isFloat boundary (CHR ''.'') T
           = Inr (spec_float_grammar (CHR ''.'') T \<and> count_list T (CHR ''.'') = 1
                  \<and> filter isdigit T \<noteq> []
                  \<and> from_chars_double boundary T \<noteq> result_out_of_range)"
    unfolding isFloat_general [OF nd assms] e
    using grammar_one_point [OF _ nd, of T] grammar_no_match [of T] by auto
  have p: "from_chars_parse ''.2'' = decimal 2 (- 1)"
    by (simp add: from_chars_parse_def isdigit_def starts_nocase_def digits_value_def
          digit_value_def exponent_part_def)
  have r: "in_normal_range 2 (- 1)"
    by (simp add: in_normal_range_def)
  have b: "isFloat boundary (CHR ''.'') ''.2'' = Inr True"
    by (simp add: isFloat_def isdigit_def from_chars_double_def p r)
  have c: "isFloat boundary (CHR ''.'') ''7.0.0'' = Inr False"
    by (simp add: isFloat_def isdigit_def)
  have q: "from_chars_parse ''.'' = no_match"
    by (simp add: from_chars_parse_def isdigit_def starts_nocase_def)
  have d: "isFloat boundary (CHR ''.'') ''.'' = Inr False"
    by (simp add: isFloat_def isdigit_def from_chars_double_def q)
  from a b c d show ?thesis by simp
qed

theorem isFloat_grammar_witness:
  "length ''1.5'' < 2 ^ 31 \<and> isFloat no_boundary_error (CHR ''.'') ''1.5'' = Inr True"
proof -
  have h: "length ''1.5'' < 2 ^ 31" by simp
  have p: "from_chars_parse ''1.5'' = decimal 15 (- 1)"
    by (simp add: from_chars_parse_def isdigit_def starts_nocase_def digits_value_def
          digit_value_def exponent_part_def)
  have r: "in_normal_range 15 (- 1)"
    by (simp add: in_normal_range_def)
  from isFloat_grammar [OF h, of no_boundary_error] h show ?thesis
    by (simp add: spec_float_grammar_def isdigit_def from_chars_double_def p r)
qed

text \<open>
  C8 (as stated) fails: the text \<open>.\<close> matches the grammar with exactly one decimal
  point and no range error is reported for it, but \<open>std::from_chars\<close> finds no number
  in it and \<open>isFloat(".")\<close> is false.
\<close>

theorem isFloat_grammar_counterexample:
  "isFloat no_boundary_error (CHR ''.'') ''.'' = Inr False
   \<and> spec_float_grammar (CHR ''.'') ''.'' \<and> count_list ''.'' (CHR ''.'') = 1
   \<and> from_chars_double no_boundary_error ''.'' \<noteq> result_out_of_range"
  by (simp add: isFloat_def isdigit_def from_chars_double_def from_chars_parse_def
        starts_nocase_def spec_float_grammar_def)

end
